theory Spec2Isabelle
  imports Main "HOL-Library.Word"
begin

unbundle bit_operations_syntax

section \<open>Data model of main.c\<close>

type_synonym u8 = "8 word"

text \<open>
  A C array is a list of bytes.  An access outside the array is undefined behaviour in C;
  the model makes it the value \<open>None\<close>, so every function that indexes an array
  returns an option.
\<close>

definition rd :: "u8 list \<Rightarrow> nat \<Rightarrow> u8 option" where
  "rd a i = (if i < length a then Some (a ! i) else None)"

definition wr :: "u8 list \<Rightarrow> nat \<Rightarrow> u8 \<Rightarrow> u8 list option" where
  "wr a i v = (if i < length a then Some (a[i := v]) else None)"

section \<open>string_chek\<close>

text \<open>
  \<^verbatim>\<open>u8 string_chek(u8* string1, u8* string2, u8 len)
  { while(len--) { if(string1[len] == string2[len]) ; else return 0; } return 1; }\<close>
  The test reads \<open>len\<close>, the decrement happens before the body, and the body indexes with
  the decremented value.
\<close>

function string_chek :: "u8 list \<Rightarrow> u8 list \<Rightarrow> u8 \<Rightarrow> u8 option" where
  "string_chek string1 string2 len =
     (if len = 0 then Some 1
      else (case rd string1 (unat (len - 1)) of
              None \<Rightarrow> None
            | Some a \<Rightarrow>
               (case rd string2 (unat (len - 1)) of
                  None \<Rightarrow> None
                | Some b \<Rightarrow> if a = b then string_chek string1 string2 (len - 1) else Some 0)))"
  by pat_completeness auto
termination
  by (relation "measure (\<lambda>(string1, string2, len). unat len)") (auto simp: unat_minus_one unat_gt_0)

declare string_chek.simps [simp del]


section \<open>Shared state and collaborator calls\<close>

type_synonym u16 = "16 word"

datatype image = gImage_1 | gImage_2 | gImage_3 | gImage_4

datatype message = door_locked_enter_password
  \<comment> \<open>the prompt string passed to \<open>LCD_ShowChinese\<close> in both branches of the confirm key\<close>

definition WHITE :: u16 where "WHITE = 0xFFFF"
definition BLUE :: u16 where "BLUE = 0x001F"
definition RED :: u16 where "RED = 0xF800"
definition YELLOW :: u16 where "YELLOW = 0xFFE0"

text \<open>
  The servo, the display and the sleep routine are external.  Each call the two threads
  make to them is recorded, with its arguments, in the order of issue.
  \<open>lock(1)\<close> locks and \<open>lock(0)\<close> unlocks (timer.h).
\<close>

datatype action =
    lock u8
  | LCD_ShowPicture u16 u16 u16 u16 image
  | LCD_ShowChinese u16 u16 message u16 u16 u8 u8
  | LCD_Fill u16 u16 u16 u16 u16
  | LCD_ShowChar u16 u16 u8 u16 u16 u8 u8
  | rt_thread_mdelay nat

text \<open>
  The globals \<open>password\<close>, \<open>key_temp\<close>, \<open>key_index\<close>, \<open>key_index_old\<close>, and
  \<open>key_old\<close>, the one local of \<open>key_process_thread_entry\<close> that lives across iterations
  of its loop.
\<close>

record lock_state =
  password :: "u8 list"
  key_temp :: "u8 list"
  key_index :: u8
  key_index_old :: u8
  key_old :: u8
  calls :: "action list"

definition init_state :: lock_state where
  "init_state = \<lparr> password = [1, 2, 3, 4, 5, 6], key_temp = [0, 0, 0, 0, 0, 0, 0],
                  key_index = 0, key_index_old = 255, key_old = 0, calls = [] \<rparr>"

definition issue :: "action list \<Rightarrow> lock_state \<Rightarrow> lock_state" where
  "issue as s = s\<lparr>calls := calls s @ as\<rparr>"

text \<open>The declared sizes of the two arrays: \<open>u8 password[6]\<close>, \<open>u8 key_temp[7]\<close>.\<close>

definition arrays_ok :: "lock_state \<Rightarrow> bool" where
  "arrays_ok s = (length (password s) = 6 \<and> length (key_temp s) = 7)"

section \<open>key_process_thread_entry: one iteration of the scan loop\<close>

text \<open>\<^verbatim>\<open>key_down = key_val & (key_val ^ key_old);\<close>\<close>

definition key_down_of :: "u8 \<Rightarrow> u8 \<Rightarrow> u8" where
  "key_down_of key_val key_old' = key_val AND (key_val XOR key_old')"

text \<open>\<^verbatim>\<open>for(i=0; i<7; i++) key_temp[i] = 0;\<close>  The counter stays below 8, so it is a
  natural number here.\<close>

function clear_key_temp :: "nat \<Rightarrow> u8 list \<Rightarrow> u8 list option" where
  "clear_key_temp i a =
     (if i < 7 then (case wr a i 0 of None \<Rightarrow> None | Some a' \<Rightarrow> clear_key_temp (Suc i) a')
      else Some a)"
  by pat_completeness auto
termination
  by (relation "measure (\<lambda>(i, a). 7 - i)") auto

declare clear_key_temp.simps [simp del]

text \<open>\<^verbatim>\<open>if (key_index < 6) { key_temp[key_index] = num; key_index++; }\<close>\<close>

definition store_digit :: "u8 \<Rightarrow> lock_state \<Rightarrow> lock_state option" where
  "store_digit num s =
     (if key_index s < 6 then
        (case wr (key_temp s) (unat (key_index s)) num of
           None \<Rightarrow> None
         | Some a \<Rightarrow> Some (s\<lparr>key_temp := a, key_index := key_index s + 1\<rparr>))
      else Some s)"

text \<open>The \<open>switch(key_down)\<close>, case by case in the order of the source.\<close>

definition key_switch :: "u8 \<Rightarrow> lock_state \<Rightarrow> lock_state option" where
  "key_switch key_down s =
     (if key_down = 1 \<or> key_down = 2 \<or> key_down = 3 \<or>
         key_down = 5 \<or> key_down = 6 \<or> key_down = 7 \<or>
         key_down = 9 \<or> key_down = 10 \<or> key_down = 11 then
        (let num = (if key_down \<le> 3 then key_down
                    else if key_down \<le> 7 then key_down - 1
                    else key_down - 2)
         in store_digit num s)
      else if key_down = 14 then store_digit 0 s
      else if key_down = 13 then
        (let s1 = s\<lparr>key_index := 0\<rparr> in
         case clear_key_temp 0 (key_temp s1) of
           None \<Rightarrow> None
         | Some a \<Rightarrow> Some (s1\<lparr>key_temp := a\<rparr>))
      else if key_down = 15 then
        (let s1 = s\<lparr>key_index := 0\<rparr> in
         case string_chek (key_temp s1) (password s1) 6 of
           None \<Rightarrow> None
         | Some r \<Rightarrow>
            (let s2 = (if r \<noteq> 0 then
                         issue [lock 0,
                                LCD_ShowPicture 0 0 128 128 gImage_3,
                                rt_thread_mdelay 5000,
                                lock 1,
                                LCD_ShowPicture 0 0 128 128 gImage_2,
                                LCD_ShowChinese 0 0 door_locked_enter_password BLUE WHITE 16 0] s1
                       else
                         issue [lock 1,
                                LCD_ShowPicture 0 0 128 128 gImage_4,
                                rt_thread_mdelay 1000,
                                LCD_ShowPicture 0 0 128 128 gImage_2,
                                LCD_ShowChinese 0 0 door_locked_enter_password BLUE WHITE 16 0] s1)
             in case clear_key_temp 0 (key_temp s2) of
                  None \<Rightarrow> None
                | Some a \<Rightarrow> Some (s2\<lparr>key_temp := a\<rparr>)))
      else Some s)"

text \<open>
  One pass through the body of \<open>while (1)\<close>; \<open>key_val\<close> is what \<open>key_read()\<close> returned.
\<close>

definition key_process_step :: "u8 \<Rightarrow> lock_state \<Rightarrow> lock_state option" where
  "key_process_step key_val s =
     (let key_down = key_down_of key_val (key_old s);
          s1 = s\<lparr>key_old := key_val\<rparr>
      in case (if key_down \<noteq> 0 then key_switch key_down s1 else Some s1) of
           None \<Rightarrow> None
         | Some s2 \<Rightarrow> Some (issue [rt_thread_mdelay 10] s2))"

section \<open>lcd_refresh_thread_entry: one iteration of the refresh loop\<close>

text \<open>\<^verbatim>\<open>for(int j=0; j<key_index; j++)
    LCD_ShowChar(20 + 16*j, 45, key_temp[j] + 48, RED, YELLOW, 16, 0);\<close>\<close>

function show_digits :: "nat \<Rightarrow> lock_state \<Rightarrow> lock_state option" where
  "show_digits j s =
     (if j < unat (key_index s) then
        (case rd (key_temp s) j of
           None \<Rightarrow> None
         | Some d \<Rightarrow>
            show_digits (Suc j)
              (issue [LCD_ShowChar (of_nat (20 + 16 * j)) 45 (d + 48) RED YELLOW 16 0] s))
      else Some s)"
  by pat_completeness auto
termination
  by (relation "measure (\<lambda>(j, s). unat (key_index s) - j)") (auto simp: issue_def)

declare show_digits.simps [simp del]

definition lcd_refresh_step :: "lock_state \<Rightarrow> lock_state option" where
  "lcd_refresh_step s =
     (case (if key_index s \<noteq> key_index_old s then
              (let s1 = issue [LCD_Fill 16 45 112 60 YELLOW] s;
                   s2 = (if key_index s1 > 6 then s1\<lparr>key_index := 6\<rparr> else s1)
               in case show_digits 0 s2 of
                    None \<Rightarrow> None
                  | Some s3 \<Rightarrow> Some (s3\<lparr>key_index_old := key_index s3\<rparr>))
            else Some s) of
        None \<Rightarrow> None
      | Some s4 \<Rightarrow> Some (issue [rt_thread_mdelay 100] s4))"

text \<open>
  \<open>lcd_refresh_step\<close> is the pass when nothing else runs inside it.  The key thread has
  the higher priority (20 against 21) and nothing guards the shared variables, so a scan
  pass can run between any two statements of the refresh pass.  The source reads
  \<open>key_index\<close> again at every loop test and once more in \<open>key_index_old = key_index\<close>.
  The refresh pass statement by statement, with the place it has reached:
\<close>

datatype lcd_pc =
    at_test       \<comment> \<open>\<^verbatim>\<open>if(key_index != key_index_old)\<close>\<close>
  | at_fill       \<comment> \<open>\<^verbatim>\<open>LCD_Fill(16, 45, 112, 60, YELLOW);\<close>\<close>
  | at_guard      \<comment> \<open>\<^verbatim>\<open>if(key_index > 6) key_index = 6;\<close>\<close>
  | at_loop nat   \<comment> \<open>the loop test \<^verbatim>\<open>j<key_index\<close>, with the value of \<open>j\<close>\<close>
  | at_body nat   \<comment> \<open>the loop body \<^verbatim>\<open>LCD_ShowChar(..., key_temp[j] + 48, ...)\<close>\<close>
  | at_mark       \<comment> \<open>\<^verbatim>\<open>key_index_old = key_index;\<close>\<close>
  | at_sleep      \<comment> \<open>\<^verbatim>\<open>rt_thread_mdelay(100);\<close>\<close>

fun lcd_stmt :: "lcd_pc \<Rightarrow> lock_state \<Rightarrow> (lcd_pc \<times> lock_state) option" where
  "lcd_stmt at_test s =
     Some (if key_index s \<noteq> key_index_old s then at_fill else at_sleep, s)"
| "lcd_stmt at_fill s = Some (at_guard, issue [LCD_Fill 16 45 112 60 YELLOW] s)"
| "lcd_stmt at_guard s = Some (at_loop 0, if key_index s > 6 then s\<lparr>key_index := 6\<rparr> else s)"
| "lcd_stmt (at_loop j) s = Some (if j < unat (key_index s) then at_body j else at_mark, s)"
| "lcd_stmt (at_body j) s =
     (case rd (key_temp s) j of
        None \<Rightarrow> None
      | Some d \<Rightarrow>
         Some (at_loop (Suc j),
               issue [LCD_ShowChar (of_nat (20 + 16 * j)) 45 (d + 48) RED YELLOW 16 0] s))"
| "lcd_stmt at_mark s = Some (at_sleep, s\<lparr>key_index_old := key_index s\<rparr>)"
| "lcd_stmt at_sleep s = Some (at_test, issue [rt_thread_mdelay 100] s)"

section \<open>Schedules of the two loops\<close>

text \<open>
  The two threads interleave; a schedule lists whose loop body runs next, and for the
  key thread what \<open>key_read()\<close> returns in that pass.
\<close>

datatype tick = KeyTick u8 | LcdTick

fun tick_step :: "tick \<Rightarrow> lock_state \<Rightarrow> lock_state option" where
  "tick_step (KeyTick key_val) s = key_process_step key_val s"
| "tick_step LcdTick s = lcd_refresh_step s"

fun run :: "tick list \<Rightarrow> lock_state \<Rightarrow> lock_state option" where
  "run [] s = Some s"
| "run (t # ts) s = (case tick_step t s of None \<Rightarrow> None | Some s' \<Rightarrow> run ts s')"

text \<open>
  A finer schedule: the refresh thread runs one statement at a time, and a whole scan
  pass of the key thread can come between two of them.
\<close>

datatype slice = KeyPass u8 | LcdStmt

fun slice_step :: "slice \<Rightarrow> lcd_pc \<times> lock_state \<Rightarrow> (lcd_pc \<times> lock_state) option" where
  "slice_step (KeyPass key_val) (pc, s) =
     (case key_process_step key_val s of None \<Rightarrow> None | Some s' \<Rightarrow> Some (pc, s'))"
| "slice_step LcdStmt (pc, s) = lcd_stmt pc s"

fun interleave :: "slice list \<Rightarrow> lcd_pc \<times> lock_state \<Rightarrow> (lcd_pc \<times> lock_state) option" where
  "interleave [] c = Some c"
| "interleave (x # xs) c = (case slice_step x c of None \<Rightarrow> None | Some c' \<Rightarrow> interleave xs c')"

text \<open>The values of \<open>key_down\<close> over a sequence of scans, from a given \<open>key_old\<close>.\<close>

fun key_downs :: "u8 \<Rightarrow> u8 list \<Rightarrow> u8 list" where
  "key_downs key_old' [] = []"
| "key_downs key_old' (key_val # rest) = key_down_of key_val key_old' # key_downs key_val rest"

text \<open>The arguments of the \<open>lock\<close> calls among the recorded calls, in order: the positions
  the servo was sent to.\<close>

fun lock_cmds :: "action list \<Rightarrow> u8 list" where
  "lock_cmds [] = []"
| "lock_cmds (lock e # as) = e # lock_cmds as"
| "lock_cmds (_ # as) = lock_cmds as"

section \<open>Properties of string_chek\<close>

lemma string_chek_0: "string_chek string1 string2 0 = Some 1"
  by (simp add: string_chek.simps)

lemma string_chek_char:
  "unat len \<le> length string1 \<Longrightarrow> unat len \<le> length string2 \<Longrightarrow>
   string_chek string1 string2 len =
     Some (if \<forall>i < unat len. string1 ! i = string2 ! i then 1 else 0)"
proof (induction string1 string2 len rule: string_chek.induct)
  case (1 string1 string2 len)
  show ?case
  proof (cases "len = 0")
    case True
    then show ?thesis by (simp add: string_chek_0)
  next
    case False
    let ?k = "unat (len - 1)"
    from False have k: "unat len = Suc ?k"
      by (simp add: unat_minus_one unat_gt_0)
    with "1.prems" have b1: "?k < length string1" and b2: "?k < length string2"
      by simp_all
    have all: "(\<forall>i < unat len. string1 ! i = string2 ! i) \<longleftrightarrow>
               (string1 ! ?k = string2 ! ?k \<and> (\<forall>i < ?k. string1 ! i = string2 ! i))"
      unfolding k by (auto simp: less_Suc_eq)
    show ?thesis
    proof (cases "string1 ! ?k = string2 ! ?k")
      case True
      have "string_chek string1 string2 len = string_chek string1 string2 (len - 1)"
        using False True b1 b2 by (subst string_chek.simps) (simp add: rd_def)
      also have "\<dots> = Some (if \<forall>i < ?k. string1 ! i = string2 ! i then 1 else 0)"
        using "1.IH" [OF False _ _ True] b1 b2 by (simp add: rd_def)
      finally show ?thesis using True all by simp
    next
      case neq: False
      have "string_chek string1 string2 len = Some 0"
        using False neq b1 b2 by (subst string_chek.simps) (simp add: rd_def)
      then show ?thesis using neq all by simp
    qed
  qed
qed

text \<open>
  Claim C1.  When both buffers hold at least \<open>n\<close> bytes, \<open>string_chek\<close> returns 1 exactly
  when the buffers agree at every index below \<open>n\<close>, and 0 exactly when they differ at
  some index below \<open>n\<close> (the first, the last, or any other).
\<close>

theorem string_chek_iff_elementwise:
  assumes "unat n \<le> length entered" and "unat n \<le> length reference"
  shows "(string_chek entered reference n = Some 1 \<longleftrightarrow>
            (\<forall>i < unat n. entered ! i = reference ! i)) \<and>
         (string_chek entered reference n = Some 0 \<longleftrightarrow>
            (\<exists>i < unat n. entered ! i \<noteq> reference ! i))"
  using string_chek_char [OF assms] by auto

theorem string_chek_iff_elementwise_witness:
  "string_chek [1, 2, 3, 4, 5, 6, 0] [1, 2, 3, 4, 5, 6] 6 = Some 1 \<and>
   string_chek [9, 2, 3, 4, 5, 6, 0] [1, 2, 3, 4, 5, 6] 6 = Some 0 \<and>
   string_chek [1, 2, 3, 4, 5, 9, 0] [1, 2, 3, 4, 5, 6] 6 = Some 0"
proof -
  have lt6: "\<And>i. i < (6::nat) \<longleftrightarrow> i = 0 \<or> i = 1 \<or> i = 2 \<or> i = 3 \<or> i = 4 \<or> i = 5"
    by arith
  have a: "string_chek [1, 2, 3, 4, 5, 6, 0] [1, 2, 3, 4, 5, 6] 6 = Some 1"
    using string_chek_iff_elementwise [of 6 "[1, 2, 3, 4, 5, 6, 0]" "[1, 2, 3, 4, 5, 6]"]
    by (simp add: lt6)
  have "\<exists>i < unat (6 :: u8). [9, 2, 3, 4, 5, 6, 0 :: u8] ! i \<noteq> [1, 2, 3, 4, 5, 6] ! i"
    by (rule exI [of _ 0]) simp
  then have b: "string_chek [9, 2, 3, 4, 5, 6, 0] [1, 2, 3, 4, 5, 6] 6 = Some 0"
    using string_chek_iff_elementwise [of 6 "[9, 2, 3, 4, 5, 6, 0]" "[1, 2, 3, 4, 5, 6]"]
    by simp
  have "\<exists>i < unat (6 :: u8). [1, 2, 3, 4, 5, 9, 0 :: u8] ! i \<noteq> [1, 2, 3, 4, 5, 6] ! i"
    by (rule exI [of _ 5]) simp
  then have c: "string_chek [1, 2, 3, 4, 5, 9, 0] [1, 2, 3, 4, 5, 6] 6 = Some 0"
    using string_chek_iff_elementwise [of 6 "[1, 2, 3, 4, 5, 9, 0]" "[1, 2, 3, 4, 5, 6]"]
    by simp
  from a b c show ?thesis by simp
qed

text \<open>
  Claim C10.  With length 0 the loop body never runs and \<open>string_chek\<close> returns 1,
  whatever the two buffers hold (also when they are empty).
\<close>

theorem string_chek_len_0: "string_chek entered reference 0 = Some 1"
  by (rule string_chek_0)

section \<open>Edge detection\<close>

lemma key_down_of_and_not: "key_down_of c p = c AND NOT p"
  unfolding key_down_of_def by (rule bit_eqI) (auto simp: bit_simps)

lemma key_down_of_after_no_key: "key_down_of c 0 = c"
  by (simp add: key_down_of_def)

lemma key_down_of_same: "key_down_of c c = 0"
  by (simp add: key_down_of_def)

lemma key_down_of_release: "key_down_of 0 p = 0"
  by (simp add: key_down_of_def)

text \<open>
  Claim C2.  The claim asks that a nonzero code that differs from the previous one fires
  with its own value.  The code does so after "no key", and fires nothing while a code
  is held or on release (the three lemmas above), but not between two different nonzero
  codes that share a bit.  With key 1 held and key 3 pressed as well, \<open>key_read()\<close>
  returns 1 and then 3: \<open>key_down\<close> is 2, and the scan pass stores the digit 2 for the
  key 3.  In the other order, code 1 after code 3, \<open>key_down\<close> is 0 and the press is lost.
\<close>

theorem key_down_of_shared_bit_wrong_digit:
  "key_down_of 3 1 = 2 \<and>
   key_down_of 1 3 = 0 \<and>
   run [KeyTick 1, KeyTick 3] init_state =
     Some \<lparr>password = [1, 2, 3, 4, 5, 6], key_temp = [1, 2, 0, 0, 0, 0, 0],
           key_index = 2, key_index_old = 255, key_old = 3,
           calls = [rt_thread_mdelay 10, rt_thread_mdelay 10]\<rparr> \<and>
   run [KeyTick 3, KeyTick 1] init_state =
     Some \<lparr>password = [1, 2, 3, 4, 5, 6], key_temp = [3, 0, 0, 0, 0, 0, 0],
           key_index = 1, key_index_old = 255, key_old = 1,
           calls = [rt_thread_mdelay 10, rt_thread_mdelay 10]\<rparr>"
  by code_simp

section \<open>The key thread: helper facts\<close>

lemma lock_cmds_append: "lock_cmds (xs @ ys) = lock_cmds xs @ lock_cmds ys"
  by (induction xs rule: lock_cmds.induct) simp_all

lemma clear_key_temp_from:
  "length a = 7 \<Longrightarrow> i \<le> 7 \<Longrightarrow>
   clear_key_temp i a = Some (take i a @ replicate (7 - i) 0)"
proof (induction i a rule: clear_key_temp.induct)
  case (1 i a)
  show ?case
  proof (cases "i < 7")
    case True
    with "1.prems" have w: "wr a i 0 = Some (a[i := 0])"
      by (simp add: wr_def)
    have "clear_key_temp i a = clear_key_temp (Suc i) (a[i := 0])"
      using True w by (subst clear_key_temp.simps) simp
    also have "\<dots> = Some (take (Suc i) (a[i := 0]) @ replicate (7 - Suc i) 0)"
      using "1.IH" [OF True w] True "1.prems" by simp
    also have "take (Suc i) (a[i := 0]) = take i a @ [0]"
      using True "1.prems" by (simp add: take_Suc_conv_app_nth)
    also have "(take i a @ [0]) @ replicate (7 - Suc i) 0 = take i a @ replicate (7 - i) 0"
    proof -
      from True have "7 - i = Suc (6 - i)" by arith
      then show ?thesis by simp
    qed
    finally show ?thesis .
  next
    case False
    with "1.prems" have "i = 7" by simp
    then show ?thesis using "1.prems" by (subst clear_key_temp.simps) simp
  qed
qed

lemma clear_key_temp_zeros:
  "length a = 7 \<Longrightarrow> clear_key_temp 0 a = Some [0, 0, 0, 0, 0, 0, 0]"
  by (simp add: clear_key_temp_from eval_nat_numeral)

lemma string_chek_6_cases:
  assumes "arrays_ok s"
  shows "string_chek (key_temp s) (password s) 6 = Some 1 \<or>
         string_chek (key_temp s) (password s) 6 = Some 0"
proof -
  from assms have "unat (6 :: u8) \<le> length (key_temp s)" "unat (6 :: u8) \<le> length (password s)"
    by (simp_all add: arrays_ok_def)
  from string_chek_char [OF this] show ?thesis by simp
qed

lemma key_switch_13:
  "length (key_temp s) = 7 \<Longrightarrow>
   key_switch 13 s = Some (s\<lparr>key_index := 0, key_temp := [0, 0, 0, 0, 0, 0, 0]\<rparr>)"
  by (simp add: key_switch_def clear_key_temp_zeros)

lemma key_switch_15_match:
  "length (key_temp s) = 7 \<Longrightarrow> string_chek (key_temp s) (password s) 6 = Some 1 \<Longrightarrow>
   key_switch 15 s =
     Some (s\<lparr>key_index := 0,
             calls := calls s @
               [lock 0,
                LCD_ShowPicture 0 0 128 128 gImage_3,
                rt_thread_mdelay 5000,
                lock 1,
                LCD_ShowPicture 0 0 128 128 gImage_2,
                LCD_ShowChinese 0 0 door_locked_enter_password BLUE WHITE 16 0],
             key_temp := [0, 0, 0, 0, 0, 0, 0]\<rparr>)"
  by (simp add: key_switch_def issue_def clear_key_temp_zeros)

lemma key_switch_15_mismatch:
  "length (key_temp s) = 7 \<Longrightarrow> string_chek (key_temp s) (password s) 6 = Some 0 \<Longrightarrow>
   key_switch 15 s =
     Some (s\<lparr>key_index := 0,
             calls := calls s @
               [lock 1,
                LCD_ShowPicture 0 0 128 128 gImage_4,
                rt_thread_mdelay 1000,
                LCD_ShowPicture 0 0 128 128 gImage_2,
                LCD_ShowChinese 0 0 door_locked_enter_password BLUE WHITE 16 0],
             key_temp := [0, 0, 0, 0, 0, 0, 0]\<rparr>)"
  by (simp add: key_switch_def issue_def clear_key_temp_zeros)

lemma key_process_step_fires:
  "key_down_of key_val (key_old s) = k \<Longrightarrow> k \<noteq> 0 \<Longrightarrow>
   key_process_step key_val s =
     map_option (issue [rt_thread_mdelay 10]) (key_switch k (s\<lparr>key_old := key_val\<rparr>))"
  by (simp add: key_process_step_def Let_def split: option.splits)

lemma key_process_step_quiet:
  "key_down_of key_val (key_old s) = 0 \<Longrightarrow>
   key_process_step key_val s = Some (issue [rt_thread_mdelay 10] (s\<lparr>key_old := key_val\<rparr>))"
  by (simp add: key_process_step_def)

lemma u8_succ_le_6: "k < 6 \<Longrightarrow> k + 1 \<le> (6 :: u8)"
  by unat_arith

lemma u8_less_6_unat: "k < (6 :: u8) \<Longrightarrow> unat k < 6"
  by unat_arith

lemma store_digit_inv:
  assumes "arrays_ok s" and "key_index s \<le> 6"
  shows "\<exists>s'. store_digit num s = Some s' \<and> arrays_ok s' \<and> key_index s' \<le> 6"
proof (cases "key_index s < 6")
  case True
  then have "unat (key_index s) < length (key_temp s)"
    using assms(1) u8_less_6_unat [OF True] by (simp add: arrays_ok_def)
  then show ?thesis
    using True assms u8_succ_le_6 [OF True]
    by (simp add: store_digit_def wr_def arrays_ok_def)
next
  case False
  then show ?thesis using assms by (simp add: store_digit_def)
qed

lemma key_switch_inv:
  assumes "arrays_ok s" and "key_index s \<le> 6"
  shows "\<exists>s'. key_switch k s = Some s' \<and> arrays_ok s' \<and> key_index s' \<le> 6"
proof -
  have len: "length (key_temp s) = 7" using assms(1) by (simp add: arrays_ok_def)
  consider (digit) "k = 1 \<or> k = 2 \<or> k = 3 \<or> k = 5 \<or> k = 6 \<or> k = 7 \<or> k = 9 \<or> k = 10 \<or> k = 11"
    | (zero) "k = 14" | (clear) "k = 13" | (confirm) "k = 15"
    | (other) "\<not> (k = 1 \<or> k = 2 \<or> k = 3 \<or> k = 5 \<or> k = 6 \<or> k = 7 \<or> k = 9 \<or> k = 10 \<or> k = 11)"
        "k \<noteq> 14" "k \<noteq> 13" "k \<noteq> 15"
    by blast
  then show ?thesis
  proof cases
    case digit
    then have "\<exists>num. key_switch k s = store_digit num s"
      by (auto simp: key_switch_def Let_def)
    then show ?thesis using store_digit_inv [OF assms] by auto
  next
    case zero
    then have "key_switch k s = store_digit 0 s"
      by (simp add: key_switch_def)
    then show ?thesis using store_digit_inv [OF assms] by auto
  next
    case clear
    then show ?thesis using assms len by (simp add: key_switch_13 arrays_ok_def)
  next
    case confirm
    from string_chek_6_cases [OF assms(1)] show ?thesis
    proof
      assume "string_chek (key_temp s) (password s) 6 = Some 1"
      then show ?thesis using confirm assms len by (simp add: key_switch_15_match arrays_ok_def)
    next
      assume "string_chek (key_temp s) (password s) 6 = Some 0"
      then show ?thesis using confirm assms len by (simp add: key_switch_15_mismatch arrays_ok_def)
    qed
  next
    case other
    then have "key_switch k s = Some s" by (simp add: key_switch_def)
    then show ?thesis using assms by simp
  qed
qed

lemma key_process_step_inv:
  assumes "arrays_ok s" and "key_index s \<le> 6"
  shows "\<exists>s'. key_process_step key_val s = Some s' \<and> arrays_ok s' \<and> key_index s' \<le> 6"
proof (cases "key_down_of key_val (key_old s) = 0")
  case True
  then show ?thesis using assms
    by (simp add: key_process_step_quiet issue_def arrays_ok_def)
next
  case False
  let ?s1 = "s\<lparr>key_old := key_val\<rparr>"
  have "arrays_ok ?s1" "key_index ?s1 \<le> 6" using assms by (simp_all add: arrays_ok_def)
  from key_switch_inv [OF this] obtain s2 where
    "key_switch (key_down_of key_val (key_old s)) ?s1 = Some s2" "arrays_ok s2" "key_index s2 \<le> 6"
    by blast
  then show ?thesis using False
    by (simp add: key_process_step_fires issue_def arrays_ok_def)
qed

section \<open>The clear key and the confirm key\<close>

text \<open>
  Claim C8.  The clear key (code 13) sets \<open>key_index\<close> to 0 and every one of the seven
  slots of \<open>key_temp\<close> to 0, whatever the state was; nothing else changes in the
  \<open>switch\<close>.  The same holds for the whole scan pass in which \<open>key_down\<close> is 13.
\<close>

theorem clear_key_resets_entry:
  assumes "length (key_temp s) = 7"
  shows "key_switch 13 s = Some (s\<lparr>key_index := 0, key_temp := [0, 0, 0, 0, 0, 0, 0]\<rparr>) \<and>
         (key_down_of key_val (key_old s) = 13 \<longrightarrow>
            (\<exists>s'. key_process_step key_val s = Some s' \<and>
                  key_index s' = 0 \<and> key_temp s' = [0, 0, 0, 0, 0, 0, 0]))"
  using assms by (simp add: key_switch_13 key_process_step_fires issue_def)

theorem clear_key_resets_entry_witness:
  "\<exists>s'. key_process_step 13
          \<lparr>password = [1, 2, 3, 4, 5, 6], key_temp = [1, 2, 3, 0, 0, 0, 0], key_index = 3,
           key_index_old = 3, key_old = 0, calls = []\<rparr> = Some s' \<and>
        key_index s' = 0 \<and> key_temp s' = [0, 0, 0, 0, 0, 0, 0]"
proof -
  let ?s = "\<lparr>password = [1, 2, 3, 4, 5, 6], key_temp = [1, 2, 3, 0, 0, 0, 0], key_index = 3,
      key_index_old = 3, key_old = 0, calls = []\<rparr> :: lock_state"
  have len: "length (key_temp ?s) = 7" by simp
  have kd: "key_down_of 13 (key_old ?s) = 13" by (simp add: key_down_of_def)
  from clear_key_resets_entry [OF len, of 13] kd show ?thesis
    by blast
qed

text \<open>
  Claim C4.  In a scan pass whose \<open>key_down\<close> is the confirm key (code 15),
  \<open>string_chek\<close> returns 1 or 0, and in both cases the pass ends with \<open>key_index = 0\<close>
  and all seven slots of \<open>key_temp\<close> zero.  When it returns 0 the calls issued are
  \<open>lock(1)\<close>, the error picture, the 1 s sleep and the prompt screen: the only servo
  command of the pass is "lock".
\<close>

theorem confirm_clears_and_mismatch_locks:
  assumes "arrays_ok s" and "key_down_of key_val (key_old s) = 15"
  shows "\<exists>s'. key_process_step key_val s = Some s' \<and>
           key_index s' = 0 \<and> key_temp s' = [0, 0, 0, 0, 0, 0, 0] \<and>
           (string_chek (key_temp s) (password s) 6 = Some 1 \<or>
            string_chek (key_temp s) (password s) 6 = Some 0) \<and>
           (string_chek (key_temp s) (password s) 6 = Some 0 \<longrightarrow>
              calls s' = calls s @
                [lock 1,
                 LCD_ShowPicture 0 0 128 128 gImage_4,
                 rt_thread_mdelay 1000,
                 LCD_ShowPicture 0 0 128 128 gImage_2,
                 LCD_ShowChinese 0 0 door_locked_enter_password BLUE WHITE 16 0,
                 rt_thread_mdelay 10] \<and>
              lock_cmds (calls s') = lock_cmds (calls s) @ [1])"
proof -
  let ?s1 = "s\<lparr>key_old := key_val\<rparr>"
  have len: "length (key_temp ?s1) = 7" using assms(1) by (simp add: arrays_ok_def)
  have step: "key_process_step key_val s = map_option (issue [rt_thread_mdelay 10]) (key_switch 15 ?s1)"
    using assms(2) by (simp add: key_process_step_fires)
  from string_chek_6_cases [OF assms(1)] show ?thesis
  proof
    assume m: "string_chek (key_temp s) (password s) 6 = Some 1"
    then have "string_chek (key_temp ?s1) (password ?s1) 6 = Some 1" by simp
    from key_switch_15_match [OF len this] m show ?thesis
      by (simp add: step issue_def)
  next
    assume m: "string_chek (key_temp s) (password s) 6 = Some 0"
    then have "string_chek (key_temp ?s1) (password ?s1) 6 = Some 0" by simp
    from key_switch_15_mismatch [OF len this] m show ?thesis
      by (simp add: step issue_def lock_cmds_append)
  qed
qed

theorem confirm_clears_and_mismatch_locks_witness:
  "\<exists>s'. key_process_step 15
          \<lparr>password = [1, 2, 3, 4, 5, 6], key_temp = [1, 2, 3, 0, 0, 0, 0], key_index = 3,
           key_index_old = 3, key_old = 0, calls = []\<rparr> = Some s' \<and>
        key_index s' = 0 \<and> key_temp s' = [0, 0, 0, 0, 0, 0, 0] \<and> lock_cmds (calls s') = [1]"
proof -
  let ?s = "\<lparr>password = [1, 2, 3, 4, 5, 6], key_temp = [1, 2, 3, 0, 0, 0, 0], key_index = 3,
      key_index_old = 3, key_old = 0, calls = []\<rparr> :: lock_state"
  have ok: "arrays_ok ?s" by (simp add: arrays_ok_def)
  have kd: "key_down_of 15 (key_old ?s) = 15" by (simp add: key_down_of_def)
  have chk: "string_chek (key_temp ?s) (password ?s) 6 = Some 0"
    by (simp add: string_chek.simps rd_def)
  from confirm_clears_and_mismatch_locks [OF ok kd] chk show ?thesis
    by auto
qed

section \<open>The refresh thread and the invariant of both loops\<close>

lemma show_digits_from:
  "unat (key_index s) \<le> length (key_temp s) \<Longrightarrow> j \<le> unat (key_index s) \<Longrightarrow>
   show_digits j s =
     Some (issue (map (\<lambda>k. LCD_ShowChar (of_nat (20 + 16 * k)) 45 (key_temp s ! k + 48) RED YELLOW 16 0)
                   [j ..< unat (key_index s)]) s)"
proof (induction j s rule: show_digits.induct)
  case (1 j s)
  let ?n = "unat (key_index s)"
  show ?case
  proof (cases "j < ?n")
    case True
    let ?c = "LCD_ShowChar (of_nat (20 + 16 * j)) 45 (key_temp s ! j + 48) RED YELLOW 16 0"
    let ?s' = "issue [?c] s"
    from True "1.prems" have r: "rd (key_temp s) j = Some (key_temp s ! j)"
      by (simp add: rd_def)
    have same: "key_index ?s' = key_index s" "key_temp ?s' = key_temp s"
      by (simp_all add: issue_def)
    have "show_digits j s = show_digits (Suc j) ?s'"
      using True r by (subst show_digits.simps) simp
    also have "\<dots> = Some (issue (map (\<lambda>k. LCD_ShowChar (of_nat (20 + 16 * k)) 45
                                  (key_temp s ! k + 48) RED YELLOW 16 0) [Suc j ..< ?n]) ?s')"
      using "1.IH" [OF True r] True "1.prems" same by simp
    also have "\<dots> = Some (issue (map (\<lambda>k. LCD_ShowChar (of_nat (20 + 16 * k)) 45
                                  (key_temp s ! k + 48) RED YELLOW 16 0) [j ..< ?n]) s)"
      using True by (simp add: issue_def upt_conv_Cons)
    finally show ?thesis .
  next
    case False
    with "1.prems" show ?thesis
      by (subst show_digits.simps) (simp add: issue_def)
  qed
qed

lemma u8_le_6_unat: "k \<le> (6 :: u8) \<Longrightarrow> unat k \<le> 6"
  by unat_arith

lemma u8_not_gt_6: "\<not> 6 < k \<Longrightarrow> k \<le> (6 :: u8)"
  by unat_arith

text \<open>The count the refresh pass renders: \<open>key_index\<close> after the guard
  \<open>if(key_index > 6) key_index = 6;\<close>.\<close>

lemma lcd_refresh_step_draw:
  assumes "length (key_temp s) = 7" and "key_index s \<noteq> key_index_old s"
  shows "lcd_refresh_step s =
    Some (s\<lparr>key_index := (if key_index s > 6 then 6 else key_index s),
            key_index_old := (if key_index s > 6 then 6 else key_index s),
            calls := calls s @ LCD_Fill 16 45 112 60 YELLOW #
               map (\<lambda>k. LCD_ShowChar (of_nat (20 + 16 * k)) 45 (key_temp s ! k + 48) RED YELLOW 16 0)
                   [0 ..< unat (if key_index s > 6 then 6 else key_index s)] @
               [rt_thread_mdelay 100]\<rparr>)"
proof -
  let ?s1 = "issue [LCD_Fill 16 45 112 60 YELLOW] s"
  let ?s2 = "if key_index ?s1 > 6 then ?s1\<lparr>key_index := 6\<rparr> else ?s1"
  have le: "key_index ?s2 \<le> 6"
    by (simp add: issue_def u8_not_gt_6)
  have idx: "key_index ?s2 = (if key_index s > 6 then 6 else key_index s)"
    by (simp add: issue_def)
  have tmp: "key_temp ?s2 = key_temp s"
    by (simp add: issue_def)
  have "unat (key_index ?s2) \<le> length (key_temp ?s2)"
    using u8_le_6_unat [OF le] assms(1) unfolding tmp by simp
  from show_digits_from [OF this, of 0]
  have "show_digits 0 ?s2 =
     Some (issue (map (\<lambda>k. LCD_ShowChar (of_nat (20 + 16 * k)) 45 (key_temp s ! k + 48) RED YELLOW 16 0)
                   [0 ..< unat (key_index ?s2)]) ?s2)"
    unfolding tmp by simp
  then show ?thesis
    using assms(2) unfolding lcd_refresh_step_def Let_def idx
    by (simp add: issue_def)
qed

lemma lcd_refresh_step_idle:
  "key_index s = key_index_old s \<Longrightarrow>
   lcd_refresh_step s = Some (s\<lparr>calls := calls s @ [rt_thread_mdelay 100]\<rparr>)"
  by (simp add: lcd_refresh_step_def issue_def)

lemma lcd_refresh_step_inv:
  assumes "arrays_ok s"
  shows "\<exists>s'. lcd_refresh_step s = Some s' \<and> arrays_ok s' \<and>
              (key_index s \<le> 6 \<longrightarrow> key_index s' \<le> 6)"
proof (cases "key_index s = key_index_old s")
  case True
  then show ?thesis using assms by (simp add: lcd_refresh_step_idle arrays_ok_def)
next
  case False
  from assms have "length (key_temp s) = 7" by (simp add: arrays_ok_def)
  from lcd_refresh_step_draw [OF this False] show ?thesis
    using assms by (simp add: arrays_ok_def)
qed

lemma run_inv:
  "arrays_ok s \<Longrightarrow> key_index s \<le> 6 \<Longrightarrow>
   \<exists>s'. run ts s = Some s' \<and> arrays_ok s' \<and> key_index s' \<le> 6"
proof (induction ts arbitrary: s)
  case Nil
  then show ?case by simp
next
  case (Cons t ts)
  have "\<exists>s1. tick_step t s = Some s1 \<and> arrays_ok s1 \<and> key_index s1 \<le> 6"
  proof (cases t)
    case (KeyTick key_val)
    then show ?thesis using key_process_step_inv [OF Cons.prems] by simp
  next
    case LcdTick
    then show ?thesis using lcd_refresh_step_inv [OF Cons.prems(1)] Cons.prems(2) by auto
  qed
  then obtain s1 where "tick_step t s = Some s1" "arrays_ok s1" "key_index s1 \<le> 6"
    by blast
  with Cons.IH [of s1] show ?case by simp
qed

lemma init_state_ok: "arrays_ok init_state" "key_index init_state \<le> 6"
  by (simp_all add: init_state_def arrays_ok_def)

lemma store_digit_full: "key_index s = 6 \<Longrightarrow> store_digit num s = Some s"
  by (simp add: store_digit_def)

text \<open>
  Claim C3.  After any schedule of scan passes and refresh passes from the initial state,
  with any values returned by \<open>key_read()\<close>, no pass has read or written outside an
  array and \<open>key_index\<close> is at most 6 (it is unsigned, so at least 0).  A digit key
  (codes 1, 2, 3, 5, 6, 7, 9, 10, 11 and 14) arriving when \<open>key_index = 6\<close> changes
  nothing: the \<open>switch\<close> returns the state as it was, and the scan pass leaves
  \<open>key_index\<close> and \<open>key_temp\<close> as they were.
\<close>

theorem key_index_bounded_and_saturates:
  "(\<exists>s'. run ts init_state = Some s' \<and> key_index s' \<le> 6 \<and> length (key_temp s') = 7) \<and>
   (key_index s = 6 \<and> key_down \<in> {1, 2, 3, 5, 6, 7, 9, 10, 11, 14} \<longrightarrow>
      key_switch key_down s = Some s) \<and>
   (key_index s = 6 \<and> key_down_of key_val (key_old s) \<in> {1, 2, 3, 5, 6, 7, 9, 10, 11, 14} \<longrightarrow>
      (\<exists>s'. key_process_step key_val s = Some s' \<and>
            key_index s' = key_index s \<and> key_temp s' = key_temp s))"
  (is "?bounded \<and> (?full_event \<longrightarrow> ?dropped) \<and> (?full_scan \<longrightarrow> ?unchanged)")
proof (intro conjI impI)
  from run_inv [OF init_state_ok, of ts] show ?bounded
    by (auto simp: arrays_ok_def)
next
  assume ?full_event
  then show ?dropped
    by (auto simp: key_switch_def Let_def store_digit_full)
next
  assume h: ?full_scan
  let ?k = "key_down_of key_val (key_old s)"
  let ?s1 = "s\<lparr>key_old := key_val\<rparr>"
  from h have "key_switch ?k ?s1 = Some ?s1"
    by (auto simp: key_switch_def Let_def store_digit_full)
  moreover from h have "?k \<noteq> 0" by auto
  ultimately show ?unchanged
    by (simp add: key_process_step_fires issue_def)
qed

theorem key_index_bounded_and_saturates_witness:
  "key_switch 5 \<lparr>password = [1, 2, 3, 4, 5, 6], key_temp = [9, 8, 7, 6, 5, 4, 0], key_index = 6,
                  key_index_old = 5, key_old = 5, calls = []\<rparr> =
     Some \<lparr>password = [1, 2, 3, 4, 5, 6], key_temp = [9, 8, 7, 6, 5, 4, 0], key_index = 6,
           key_index_old = 5, key_old = 5, calls = []\<rparr> \<and>
   (\<exists>s'. key_process_step 14
           \<lparr>password = [1, 2, 3, 4, 5, 6], key_temp = [9, 8, 7, 6, 5, 4, 0], key_index = 6,
            key_index_old = 5, key_old = 0, calls = []\<rparr> = Some s' \<and>
         key_index s' = 6 \<and> key_temp s' = [9, 8, 7, 6, 5, 4, 0])"
proof -
  let ?a = "\<lparr>password = [1, 2, 3, 4, 5, 6], key_temp = [9, 8, 7, 6, 5, 4, 0], key_index = 6,
             key_index_old = 5, key_old = 5, calls = []\<rparr> :: lock_state"
  let ?b = "\<lparr>password = [1, 2, 3, 4, 5, 6], key_temp = [9, 8, 7, 6, 5, 4, 0], key_index = 6,
             key_index_old = 5, key_old = 0, calls = []\<rparr> :: lock_state"
  have kd: "key_down_of 14 (key_old ?b) = 14" by (simp add: key_down_of_def)
  from key_index_bounded_and_saturates [of "[]" ?a 5 0]
  have a: "key_switch 5 ?a = Some ?a" by simp
  from key_index_bounded_and_saturates [of "[]" ?b 0 14] kd
  have b: "\<exists>s'. key_process_step 14 ?b = Some s' \<and> key_index s' = 6 \<and>
                key_temp s' = [9, 8, 7, 6, 5, 4, 0]"
    by simp
  from a b show ?thesis by simp
qed

section \<open>Held keys\<close>

lemma key_downs_fire_only_on_change:
  "i < length codes \<Longrightarrow> key_downs p codes ! i \<noteq> 0 \<Longrightarrow>
   codes ! i \<noteq> 0 \<and> codes ! i \<noteq> (p # codes) ! i"
proof (induction codes arbitrary: p i)
  case Nil
  then show ?case by simp
next
  case (Cons c codes)
  show ?case
  proof (cases i)
    case 0
    with Cons.prems show ?thesis
      by (auto simp: key_down_of_def)
  next
    case (Suc j)
    with Cons.prems Cons.IH [of j c] show ?thesis by simp
  qed
qed

lemma key_downs_held:
  "key_downs c (replicate n c) = replicate n 0"
  by (induction n) (simp_all add: key_down_of_def)

lemma key_process_step_held:
  "key_old s = c \<Longrightarrow> key_process_step c s = Some (issue [rt_thread_mdelay 10] s)"
proof -
  have "key_process_step (key_old s) s = Some (issue [rt_thread_mdelay 10] s)"
    by (simp add: key_process_step_def key_down_of_def)
  then show "key_old s = c \<Longrightarrow> ?thesis" by simp
qed

lemma run_held:
  "key_old s = c \<Longrightarrow>
   run (map KeyTick (replicate n c)) s = Some (issue (replicate n (rt_thread_mdelay 10)) s)"
proof (induction n arbitrary: s)
  case 0
  then show ?case by (simp add: issue_def)
next
  case (Suc n)
  have "key_old (issue [rt_thread_mdelay 10] s) = c"
    using Suc.prems by (simp add: issue_def)
  from Suc.IH [OF this] show ?case
    using Suc.prems by (simp add: key_process_step_held issue_def)
qed

lemma key_process_step_key_old:
  "key_process_step key_val s = Some s' \<Longrightarrow> key_old s' = key_val"
  by (auto simp: key_process_step_def key_switch_def store_digit_def issue_def Let_def
           split: if_splits option.splits)

text \<open>
  Claim C6.  Over any sequence of raw scan codes, \<open>key_down\<close> is nonzero only at a tick
  whose code is nonzero and differs from the code of the tick before (or from the
  starting \<open>key_old\<close>, at the first tick): so only the first tick of a run of one code
  can fire.  A run of \<open>n + 1\<close> equal codes gives one computed value followed by \<open>n\<close>
  zeros.  On the state: every scan pass leaves \<open>key_old\<close> equal to the code it read, and
  from then on passes that read the same code do nothing but sleep.  Scenario D: seven
  scans of one code from \<open>key_old = 0\<close> give that code once and six zeros; seven scans of
  code 5 from the initial state record one digit.
\<close>

theorem one_event_per_held_run:
  "(i < length codes \<and> key_downs p codes ! i \<noteq> 0 \<longrightarrow>
      codes ! i \<noteq> 0 \<and> codes ! i \<noteq> (p # codes) ! i) \<and>
   key_downs p (replicate (Suc n) c) = key_down_of c p # replicate n 0 \<and>
   (key_process_step c s = Some s' \<longrightarrow>
      key_old s' = c \<and>
      run (map KeyTick (replicate n c)) s' = Some (issue (replicate n (rt_thread_mdelay 10)) s')) \<and>
   key_downs 0 (replicate 7 c) = [c, 0, 0, 0, 0, 0, 0] \<and>
   (\<exists>s7. run (map KeyTick (replicate 7 5)) init_state = Some s7 \<and>
         key_index s7 = 1 \<and> key_temp s7 = [4, 0, 0, 0, 0, 0, 0])"
  (is "(?fires \<longrightarrow> ?changed) \<and> ?run_of_c \<and> (?first_tick \<longrightarrow> ?held_after) \<and> ?seven \<and> ?scenario_D")
proof (intro conjI impI)
  assume ?fires
  then show "codes ! i \<noteq> 0" and "codes ! i \<noteq> (p # codes) ! i"
    using key_downs_fire_only_on_change [of i codes p] by simp_all
next
  show ?run_of_c by (simp add: key_downs_held)
next
  assume t: ?first_tick
  then show k: "key_old s' = c" by (rule key_process_step_key_old)
  from run_held [OF k]
  show "run (map KeyTick (replicate n c)) s' = Some (issue (replicate n (rt_thread_mdelay 10)) s')" .
next
  have "key_downs 0 (replicate (Suc 6) c) = key_down_of c 0 # replicate 6 0"
    by (simp only: key_downs.simps replicate_Suc key_downs_held)
  then show ?seven by (simp add: key_down_of_def eval_nat_numeral)
next
  have "run (map KeyTick (replicate 7 5)) init_state =
    Some \<lparr>password = [1, 2, 3, 4, 5, 6], key_temp = [4, 0, 0, 0, 0, 0, 0],
          key_index = 1, key_index_old = 255, key_old = 5,
          calls = replicate 7 (rt_thread_mdelay 10)\<rparr>"
    by code_simp
  then show ?scenario_D by simp
qed

theorem one_event_per_held_run_witness:
  "key_downs 0 [5, 5, 5, 0, 5] ! 0 \<noteq> 0 \<and> key_downs 0 [5, 5, 5, 0, 5] ! 4 \<noteq> 0 \<and>
   (\<exists>s'. key_process_step 5 init_state = Some s' \<and> key_old s' = 5 \<and>
     run (map KeyTick (replicate 6 5)) s' = Some (issue (replicate 6 (rt_thread_mdelay 10)) s'))"
proof -
  have a: "key_downs 0 [5, 5, 5, 0, 5] ! 0 \<noteq> 0" "key_downs 0 [5, 5, 5, 0, 5] ! 4 \<noteq> 0"
    by (simp_all add: key_down_of_def)
  obtain s' where s': "key_process_step 5 init_state = Some s'"
    using key_process_step_inv [OF init_state_ok, of 5] by blast
  from one_event_per_held_run [of 0 "[5, 5, 5, 0, 5]" 0 6 5 init_state s'] s'
  have "key_old s' = 5 \<and>
     run (map KeyTick (replicate 6 5)) s' = Some (issue (replicate 6 (rt_thread_mdelay 10)) s')"
    by blast
  with a s' show ?thesis by blast
qed

section \<open>Scan passes and the refresh marker\<close>



lemma run_init_ok:
  "run ts init_state = Some s \<Longrightarrow> arrays_ok s \<and> key_index s \<le> 6"
  using run_inv [OF init_state_ok, of ts] by auto

lemma u8_le_6_not_gt: "k \<le> (6 :: u8) \<Longrightarrow> \<not> 6 < k"
  by unat_arith

section \<open>The servo commands\<close>

lemma lock_cmds_show_chars:
  "lock_cmds (map (\<lambda>k. LCD_ShowChar (f k) y (g k) fc bc sz m) ks) = []"
  by (induction ks) simp_all

lemma lcd_refresh_step_lock_cmds:
  assumes "length (key_temp s) = 7" and "lcd_refresh_step s = Some s'"
  shows "lock_cmds (calls s') = lock_cmds (calls s)"
proof (cases "key_index s = key_index_old s")
  case True
  with assms(2) show ?thesis
    by (auto simp: lcd_refresh_step_idle lock_cmds_append)
next
  case False
  from lcd_refresh_step_draw [OF assms(1) False] assms(2) show ?thesis
    by (auto simp: lock_cmds_append lock_cmds_show_chars)
qed

lemma key_switch_other_calls:
  "k \<noteq> 15 \<Longrightarrow> key_switch k s = Some s' \<Longrightarrow> calls s' = calls s"
  by (auto simp: key_switch_def store_digit_def Let_def split: if_splits option.splits)

lemma key_process_step_lock_cmds:
  assumes "arrays_ok s" and "key_process_step key_val s = Some s'"
  shows "lock_cmds (calls s') = lock_cmds (calls s) \<or>
         lock_cmds (calls s') = lock_cmds (calls s) @ [0, 1] \<or>
         lock_cmds (calls s') = lock_cmds (calls s) @ [1]"
proof -
  let ?k = "key_down_of key_val (key_old s)"
  let ?s1 = "s\<lparr>key_old := key_val\<rparr>"
  have len: "length (key_temp ?s1) = 7" using assms(1) by (simp add: arrays_ok_def)
  consider (quiet) "?k = 0" | (confirm) "?k = 15" | (other) "?k \<noteq> 0" "?k \<noteq> 15"
    by blast
  then show ?thesis
  proof cases
    case quiet
    with assms(2) show ?thesis
      by (auto simp: key_process_step_quiet issue_def lock_cmds_append)
  next
    case confirm
    then have step: "key_process_step key_val s =
        map_option (issue [rt_thread_mdelay 10]) (key_switch 15 ?s1)"
      by (simp add: key_process_step_fires)
    from string_chek_6_cases [OF assms(1)] show ?thesis
    proof
      assume "string_chek (key_temp s) (password s) 6 = Some 1"
      then have "string_chek (key_temp ?s1) (password ?s1) 6 = Some 1" by simp
      from key_switch_15_match [OF len this] assms(2) show ?thesis
        by (auto simp: step issue_def lock_cmds_append)
    next
      assume "string_chek (key_temp s) (password s) 6 = Some 0"
      then have "string_chek (key_temp ?s1) (password ?s1) 6 = Some 0" by simp
      from key_switch_15_mismatch [OF len this] assms(2) show ?thesis
        by (auto simp: step issue_def lock_cmds_append)
    qed
  next
    case other
    from other(1) have step: "key_process_step key_val s =
        map_option (issue [rt_thread_mdelay 10]) (key_switch ?k ?s1)"
      by (simp add: key_process_step_fires)
    with assms(2) obtain s2 where s2: "key_switch ?k ?s1 = Some s2"
      and s': "s' = issue [rt_thread_mdelay 10] s2"
      by auto
    from key_switch_other_calls [OF other(2) s2] s' show ?thesis
      by (simp add: issue_def lock_cmds_append)
  qed
qed

lemma run_ends_locked:
  "arrays_ok s \<Longrightarrow> key_index s \<le> 6 \<Longrightarrow>
   lock_cmds (calls s) = [] \<or> last (lock_cmds (calls s)) = 1 \<Longrightarrow>
   run ts s = Some s' \<Longrightarrow>
   lock_cmds (calls s') = [] \<or> last (lock_cmds (calls s')) = 1"
proof (induction ts arbitrary: s)
  case Nil
  then show ?case by simp
next
  case (Cons t ts)
  from Cons.prems(4) obtain s1 where t: "tick_step t s = Some s1" and r: "run ts s1 = Some s'"
    by (auto split: option.splits)
  have len: "length (key_temp s) = 7" using Cons.prems(1) by (simp add: arrays_ok_def)
  have ok: "arrays_ok s1 \<and> key_index s1 \<le> 6"
  proof (cases t)
    case (KeyTick key_val)
    with t key_process_step_inv [OF Cons.prems(1,2), of key_val] show ?thesis by auto
  next
    case LcdTick
    with t lcd_refresh_step_inv [OF Cons.prems(1)] Cons.prems(2) show ?thesis by auto
  qed
  have "lock_cmds (calls s1) = [] \<or> last (lock_cmds (calls s1)) = 1"
  proof (cases t)
    case (KeyTick key_val)
    with t key_process_step_lock_cmds [OF Cons.prems(1), of key_val s1] Cons.prems(3)
    show ?thesis by auto
  next
    case LcdTick
    with t lcd_refresh_step_lock_cmds [OF len, of s1] Cons.prems(3) show ?thesis by auto
  qed
  with Cons.IH [of s1] ok r show ?case by blast
qed

lemma run_init_ends_locked:
  "run ts init_state = Some s' \<Longrightarrow> lock_cmds (calls s') = [] \<or> last (lock_cmds (calls s')) = 1"
  using run_ends_locked [OF init_state_ok, of ts s'] by (simp add: init_state_def)

text \<open>
  Claim C5.  In a scan pass whose \<open>key_down\<close> is the confirm key and whose
  \<open>string_chek\<close> returns 1, \<open>lock(0)\<close> is issued, then the 5 s sleep, then \<open>lock(1)\<close>,
  all before the pass ends; the servo commands of the pass are unlock, lock in this
  order, and \<open>key_index\<close> is 0 afterwards.  Scenario A: from the initial state, pressing
  and releasing the keys of the digits 1 to 6 (codes 1, 2, 3, 5, 6, 7) and then confirm
  issues unlock, then lock, and ends with \<open>key_index = 0\<close>.  And after any schedule of
  passes from the initial state, the last servo command issued, if any, is lock.
\<close>

theorem confirm_match_unlocks_then_locks:
  "(arrays_ok s \<and> key_down_of key_val (key_old s) = 15 \<and>
    string_chek (key_temp s) (password s) 6 = Some 1 \<longrightarrow>
      (\<exists>s'. key_process_step key_val s = Some s' \<and>
            calls s' = calls s @
              [lock 0,
               LCD_ShowPicture 0 0 128 128 gImage_3,
               rt_thread_mdelay 5000,
               lock 1,
               LCD_ShowPicture 0 0 128 128 gImage_2,
               LCD_ShowChinese 0 0 door_locked_enter_password BLUE WHITE 16 0,
               rt_thread_mdelay 10] \<and>
            lock_cmds (calls s') = lock_cmds (calls s) @ [0, 1] \<and>
            key_index s' = 0)) \<and>
   (\<exists>s'. run (map KeyTick [1, 0, 2, 0, 3, 0, 5, 0, 6, 0, 7, 0, 15]) init_state = Some s' \<and>
         lock_cmds (calls s') = [0, 1] \<and> key_index s' = 0 \<and>
         key_temp s' = [0, 0, 0, 0, 0, 0, 0]) \<and>
   (\<exists>s'. run ts init_state = Some s' \<and>
         (lock_cmds (calls s') = [] \<or> last (lock_cmds (calls s')) = 1))"
  (is "(?matching \<longrightarrow> ?unlock_lock) \<and> ?scenario_A \<and> ?ends_locked")
proof (intro conjI)
  show "?matching \<longrightarrow> ?unlock_lock"
  proof
    assume h: ?matching
    let ?s1 = "s\<lparr>key_old := key_val\<rparr>"
    have len: "length (key_temp ?s1) = 7" using h by (simp add: arrays_ok_def)
    have m: "string_chek (key_temp ?s1) (password ?s1) 6 = Some 1" using h by simp
    have "key_process_step key_val s =
            map_option (issue [rt_thread_mdelay 10]) (key_switch 15 ?s1)"
      using h by (simp add: key_process_step_fires)
    with key_switch_15_match [OF len m] show ?unlock_lock
      by (simp add: issue_def lock_cmds_append)
  qed
next
  have "run (map KeyTick [1, 0, 2, 0, 3, 0, 5, 0, 6, 0, 7, 0, 15]) init_state =
    Some \<lparr>password = [1, 2, 3, 4, 5, 6], key_temp = [0, 0, 0, 0, 0, 0, 0],
          key_index = 0, key_index_old = 255, key_old = 15,
          calls = replicate 12 (rt_thread_mdelay 10) @
            [lock 0, LCD_ShowPicture 0 0 128 128 gImage_3, rt_thread_mdelay 5000,
             lock 1, LCD_ShowPicture 0 0 128 128 gImage_2,
             LCD_ShowChinese 0 0 door_locked_enter_password BLUE WHITE 16 0,
             rt_thread_mdelay 10]\<rparr>"
    by code_simp
  then show ?scenario_A
    by (simp add: eval_nat_numeral)
next
  from run_inv [OF init_state_ok, of ts] obtain s' where "run ts init_state = Some s'"
    by blast
  with run_init_ends_locked [of ts s'] show ?ends_locked
    by blast
qed

theorem confirm_match_unlocks_then_locks_witness:
  "\<exists>s'. key_process_step 15
          \<lparr>password = [1, 2, 3, 4, 5, 6], key_temp = [1, 2, 3, 4, 5, 6, 0], key_index = 6,
           key_index_old = 6, key_old = 0, calls = [lock 1]\<rparr> = Some s' \<and>
        lock_cmds (calls s') = [1, 0, 1] \<and> key_index s' = 0"
proof -
  let ?s = "\<lparr>password = [1, 2, 3, 4, 5, 6], key_temp = [1, 2, 3, 4, 5, 6, 0], key_index = 6,
      key_index_old = 6, key_old = 0, calls = [lock 1]\<rparr> :: lock_state"
  have h: "arrays_ok ?s \<and> key_down_of 15 (key_old ?s) = 15 \<and>
           string_chek (key_temp ?s) (password ?s) 6 = Some 1"
    by (simp add: arrays_ok_def key_down_of_def string_chek.simps rd_def)
  from confirm_match_unlocks_then_locks [of ?s 15] h show ?thesis
    by auto
qed

section \<open>The refresh pass statement by statement\<close>







lemma lcd_stmt_frame:
  "key_index s \<le> 6 \<Longrightarrow> lcd_stmt pc s = Some (pc', s') \<Longrightarrow>
   key_index s' = key_index s \<and> key_temp s' = key_temp s \<and> password s' = password s"
  by (cases pc) (auto simp: issue_def dest: u8_le_6_not_gt split: option.splits if_splits)

section \<open>What the refresh thread writes, and what it records\<close>

lemma lcd_stmt_inv:
  assumes "arrays_ok s" and "key_index s \<le> 6" and "\<forall>j. pc = at_body j \<longrightarrow> j < 6"
  shows "\<exists>pc' s'. lcd_stmt pc s = Some (pc', s') \<and> arrays_ok s' \<and> key_index s' \<le> 6 \<and>
           (\<forall>j. pc' = at_body j \<longrightarrow> j < 6) \<and>
           key_index s' = key_index s \<and> key_temp s' = key_temp s"
proof (cases pc)
  case (at_loop j)
  show ?thesis
    using assms(1,2) u8_le_6_unat [OF assms(2)] unfolding at_loop by auto
next
  case (at_body j)
  with assms(3) have "j < 6" by simp
  with assms(1) have "rd (key_temp s) j = Some (key_temp s ! j)"
    by (simp add: rd_def arrays_ok_def)
  then show ?thesis
    using assms(1,2) unfolding at_body by (simp add: issue_def arrays_ok_def)
next
  case at_guard
  then show ?thesis
    using assms(1,2) u8_le_6_not_gt [OF assms(2)] by simp
qed (use assms(1,2) in \<open>simp_all add: issue_def arrays_ok_def\<close>)

lemma interleave_inv:
  "arrays_ok s \<Longrightarrow> key_index s \<le> 6 \<Longrightarrow> \<forall>j. pc = at_body j \<longrightarrow> j < 6 \<Longrightarrow>
   \<exists>pc' s'. interleave xs (pc, s) = Some (pc', s') \<and> arrays_ok s' \<and> key_index s' \<le> 6 \<and>
           (\<forall>j. pc' = at_body j \<longrightarrow> j < 6)"
proof (induction xs arbitrary: pc s)
  case Nil
  then show ?case by simp
next
  case (Cons x xs)
  have "\<exists>pc1 s1. slice_step x (pc, s) = Some (pc1, s1) \<and> arrays_ok s1 \<and> key_index s1 \<le> 6 \<and>
           (\<forall>j. pc1 = at_body j \<longrightarrow> j < 6)"
  proof (cases x)
    case (KeyPass key_val)
    with key_process_step_inv [OF Cons.prems(1,2), of key_val] Cons.prems(3)
    show ?thesis by auto
  next
    case LcdStmt
    with lcd_stmt_inv [OF Cons.prems] show ?thesis by auto
  qed
  then obtain pc1 s1 where "slice_step x (pc, s) = Some (pc1, s1)" "arrays_ok s1"
    "key_index s1 \<le> 6" "\<forall>j. pc1 = at_body j \<longrightarrow> j < 6"
    by blast
  with Cons.IH [of s1 pc1] show ?case by simp
qed

lemma interleave_init_ok:
  assumes "interleave xs (at_test, init_state) = Some (pc, s)"
  shows "arrays_ok s \<and> key_index s \<le> 6 \<and> (\<forall>j. pc = at_body j \<longrightarrow> j < 6)"
  using interleave_inv [OF init_state_ok, of at_test xs] assms by auto

text \<open>
  Claim C7.  The refresh thread never writes \<open>key_temp\<close>, and its one write to
  \<open>key_index\<close> is the guard \<open>if(key_index > 6) key_index = 6;\<close>, which acts only on a
  count above 6.  The key thread keeps the count at 6 or below, so in every state reached
  from the initial state a refresh pass leaves \<open>key_index\<close> and \<open>key_temp\<close> unchanged.
  The same holds statement by statement when scan passes come between the statements
  of the refresh pass: every statement the refresh thread executes leaves both
  unchanged.
\<close>

theorem lcd_refresh_step_frame:
  "(length (key_temp s) = 7 \<longrightarrow>
      (\<exists>s'. lcd_refresh_step s = Some s' \<and> key_temp s' = key_temp s \<and>
            key_index s' =
              (if key_index s \<noteq> key_index_old s \<and> 6 < key_index s then 6 else key_index s))) \<and>
   (length (key_temp s) = 7 \<and> (key_index s \<le> 6 \<or> key_index s = key_index_old s) \<longrightarrow>
      (\<exists>s'. lcd_refresh_step s = Some s' \<and> key_temp s' = key_temp s \<and>
            key_index s' = key_index s)) \<and>
   (run ts init_state = Some s \<longrightarrow>
      (\<exists>s'. lcd_refresh_step s = Some s' \<and> key_temp s' = key_temp s \<and>
            key_index s' = key_index s)) \<and>
   (interleave xs (at_test, init_state) = Some (pc, s) \<longrightarrow>
      (\<exists>pc' s'. lcd_stmt pc s = Some (pc', s') \<and> key_temp s' = key_temp s \<and>
            key_index s' = key_index s))"
  (is "(?sized \<longrightarrow> ?clamped) \<and> (?in_range \<longrightarrow> ?same) \<and> (?reachable \<longrightarrow> ?same) \<and>
       (?reached \<longrightarrow> ?stmt_same)")
proof -
  have clamped: ?clamped if len: ?sized
  proof (cases "key_index s = key_index_old s")
    case True
    then show ?thesis by (simp add: lcd_refresh_step_idle)
  next
    case False
    from lcd_refresh_step_draw [OF len False] False show ?thesis by simp
  qed
  have same: ?same if "length (key_temp s) = 7" "key_index s \<le> 6 \<or> key_index s = key_index_old s"
    using clamped [OF that(1)] that(2) by (auto dest: u8_le_6_not_gt)
  have reach: ?same if r: ?reachable
  proof -
    from run_init_ok [OF r] have "length (key_temp s) = 7" "key_index s \<le> 6"
      by (simp_all add: arrays_ok_def)
    then show ?thesis using same by blast
  qed
  have ?stmt_same if r: ?reached
  proof -
    from interleave_init_ok [OF r]
    have "arrays_ok s" "key_index s \<le> 6" "\<forall>j. pc = at_body j \<longrightarrow> j < 6"
      by simp_all
    from lcd_stmt_inv [OF this] show ?thesis by blast
  qed
  with clamped same reach show ?thesis by blast
qed

theorem lcd_refresh_step_frame_witness:
  "(\<exists>s'. lcd_refresh_step
          \<lparr>password = [1, 2, 3, 4, 5, 6], key_temp = [7, 8, 0, 0, 0, 0, 0], key_index = 2,
           key_index_old = 1, key_old = 10,
           calls = [rt_thread_mdelay 10, rt_thread_mdelay 10, LCD_Fill 16 45 112 60 YELLOW,
                    LCD_ShowChar 20 45 55 RED YELLOW 16 0, rt_thread_mdelay 100,
                    rt_thread_mdelay 10]\<rparr> = Some s' \<and>
        key_temp s' = [7, 8, 0, 0, 0, 0, 0] \<and> key_index s' = 2) \<and>
   (\<exists>pc' s'. lcd_stmt (at_body 0)
          \<lparr>password = [1, 2, 3, 4, 5, 6], key_temp = [7, 8, 0, 0, 0, 0, 0], key_index = 2,
           key_index_old = 255, key_old = 10,
           calls = [rt_thread_mdelay 10, rt_thread_mdelay 10, rt_thread_mdelay 10,
                    LCD_Fill 16 45 112 60 YELLOW]\<rparr> = Some (pc', s') \<and>
        key_temp s' = [7, 8, 0, 0, 0, 0, 0] \<and> key_index s' = 2)"
proof -
  let ?s = "\<lparr>password = [1, 2, 3, 4, 5, 6], key_temp = [7, 8, 0, 0, 0, 0, 0], key_index = 2,
           key_index_old = 1, key_old = 10,
           calls = [rt_thread_mdelay 10, rt_thread_mdelay 10, LCD_Fill 16 45 112 60 YELLOW,
                    LCD_ShowChar 20 45 55 RED YELLOW 16 0, rt_thread_mdelay 100,
                    rt_thread_mdelay 10]\<rparr> :: lock_state"
  let ?t = "\<lparr>password = [1, 2, 3, 4, 5, 6], key_temp = [7, 8, 0, 0, 0, 0, 0], key_index = 2,
           key_index_old = 255, key_old = 10,
           calls = [rt_thread_mdelay 10, rt_thread_mdelay 10, rt_thread_mdelay 10,
                    LCD_Fill 16 45 112 60 YELLOW]\<rparr> :: lock_state"
  let ?ts = "[KeyTick 9, KeyTick 0, LcdTick, KeyTick 10]"
  let ?xs = "[KeyPass 9, KeyPass 0, KeyPass 10, LcdStmt, LcdStmt, LcdStmt, LcdStmt]"
  have r: "run ?ts init_state = Some ?s"
    by code_simp
  have h: "length (key_temp ?s) = 7 \<and> (key_index ?s \<le> 6 \<or> key_index ?s = key_index_old ?s)"
    by simp
  have i: "interleave ?xs (at_test, init_state) = Some (at_body 0, ?t)"
    by code_simp
  from lcd_refresh_step_frame [where s = ?s and ts = ?ts] r h
  have a: "\<exists>s'. lcd_refresh_step ?s = Some s' \<and> key_temp s' = [7, 8, 0, 0, 0, 0, 0] \<and>
                key_index s' = 2"
    by simp
  from lcd_refresh_step_frame [where s = ?t and xs = ?xs and pc = "at_body 0"] i
  have b: "\<exists>pc' s'. lcd_stmt (at_body 0) ?t = Some (pc', s') \<and>
                key_temp s' = [7, 8, 0, 0, 0, 0, 0] \<and> key_index s' = 2"
    by simp
  from a b show ?thesis by blast
qed




end
